theory Spec2Isabelle
  imports
    Main
    "HOL-Library.AList"
    "HOL-Library.Multiset"
    "HOL-Library.Product_Lexorder"
    "HOL-Library.Signed_Division"
begin

section \<open>Balanced placement over a topology: data model\<close>

text \<open>
  The Go code works on pointers to \<open>domain\<close> objects and mutates the selected ones in
  place. A pointer is an address, the objects live in a store that maps every address to
  the object found there, and a slice of pointers is a list of addresses. The same address
  may occur twice in a list, exactly as the same pointer may occur twice in a Go slice.

  Values of type \<open>int32\<close> are mathematical integers here: the theorems are about runs in
  which no intermediate value leaves the 32-bit range.
\<close>

type_synonym addr = nat

text \<open>
  Modelled from the spec: the struct \<open>domain\<close>, which is declared elsewhere in the
  package. Its fields are the attributes of a Domain in the data model (level, children, the two
  slice capacities, leader eligibility, and the two capacities in slice-size units); the
  field names are those the code uses.
\<close>

record domain =
  level :: int
  children :: "addr list"
  sliceState :: int
  sliceStateWithLeader :: int
  leaderState :: int
  state :: int
  stateWithLeader :: int

type_synonym heap = "addr \<Rightarrow> domain"

text \<open>
  Modelled from the spec: the method \<open>grandchildren\<close>, which is declared elsewhere in
  the package; it is the children of the children, in order.
\<close>

definition grandchildren :: "heap \<Rightarrow> addr \<Rightarrow> addr list" where
  "grandchildren h d = concat (map (\<lambda>c. children (h c)) (children (h d)))"

text \<open>
  Modelled from the spec: the function \<open>sortedDomains\<close>, which is declared elsewhere in
  the package. It is a stable sort by \<open>sliceState\<close> that returns a fresh slice; the code
  always passes \<open>false\<close> for the flag, which gives the descending order.
\<close>

definition sortedDomains :: "heap \<Rightarrow> addr list \<Rightarrow> bool \<Rightarrow> addr list" where
  "sortedDomains h ds ascending =
     sort_key (\<lambda>a. if ascending then sliceState (h a) else - sliceState (h a)) ds"

text \<open>
  Modelled from the spec: the function \<open>sortedDomainsWithLeader\<close>, which is declared
  elsewhere in the package. It is a stable sort by \<open>sliceStateWithLeader\<close>, ties broken
  by \<open>sliceState\<close>, that returns a fresh slice.
\<close>

definition sortedDomainsWithLeader :: "heap \<Rightarrow> addr list \<Rightarrow> bool \<Rightarrow> addr list" where
  "sortedDomainsWithLeader h ds ascending =
     sort_key (\<lambda>a. if ascending
                    then (sliceStateWithLeader (h a), sliceState (h a))
                    else (- sliceStateWithLeader (h a), - sliceState (h a))) ds"

section \<open>The feasibility simulator\<close>

text \<open>
  The first loop of \<open>simulateGreedy\<close>. The list argument is \<open>sorted[idx:]\<close>; the result
  carries the counters and the rest of the list at the index where the loop stopped.
\<close>

fun leaderLoop ::
  "heap \<Rightarrow> addr list \<Rightarrow> int \<Rightarrow> addr option \<Rightarrow> int \<Rightarrow> int
     \<Rightarrow> int \<times> addr option \<times> int \<times> int \<times> addr list" where
  "leaderLoop h [] selectedDomainsCount lastDomainWithLeader remainingLeaderCount remainingSliceCount =
     (selectedDomainsCount, lastDomainWithLeader, remainingLeaderCount, remainingSliceCount, [])"
| "leaderLoop h (a # rest) selectedDomainsCount lastDomainWithLeader remainingLeaderCount remainingSliceCount =
     (if remainingLeaderCount > 0 \<and> leaderState (h a) > 0
      then leaderLoop h rest (selectedDomainsCount + 1) (Some a)
             (remainingLeaderCount - leaderState (h a))
             (remainingSliceCount - sliceStateWithLeader (h a))
      else (selectedDomainsCount, lastDomainWithLeader, remainingLeaderCount,
            remainingSliceCount, a # rest))"

text \<open>The second loop of \<open>simulateGreedy\<close>, over \<open>remainingSorted[idx:]\<close>.\<close>

fun sliceLoop ::
  "heap \<Rightarrow> addr list \<Rightarrow> int \<Rightarrow> addr option \<Rightarrow> int \<Rightarrow> int \<times> addr option \<times> int" where
  "sliceLoop h [] selectedDomainsCount lastDomain remainingSliceCount =
     (selectedDomainsCount, lastDomain, remainingSliceCount)"
| "sliceLoop h (a # rest) selectedDomainsCount lastDomain remainingSliceCount =
     (if remainingSliceCount > 0 \<and> sliceState (h a) > 0
      then sliceLoop h rest (selectedDomainsCount + 1) (Some a)
             (remainingSliceCount - sliceState (h a))
      else (selectedDomainsCount, lastDomain, remainingSliceCount))"

text \<open>
  The state of \<open>simulateGreedy\<close> when the leader phase is over: the counters and
  \<open>remainingSorted\<close>.
\<close>

definition leaderPhase ::
  "heap \<Rightarrow> addr list \<Rightarrow> int \<Rightarrow> int \<Rightarrow> int \<times> addr option \<times> int \<times> int \<times> addr list" where
  "leaderPhase h domains sliceCount leaderCount =
     (if leaderCount > 0
      then (case leaderLoop h (sortedDomainsWithLeader h domains False) 0 None
                   leaderCount sliceCount of
              (selectedDomainsCount, lastDomainWithLeader, remainingLeaderCount,
               remainingSliceCount, rest) \<Rightarrow>
                (selectedDomainsCount, lastDomainWithLeader, remainingLeaderCount,
                 remainingSliceCount, sortedDomains h rest False))
      else (0, None, leaderCount, sliceCount, sortedDomains h domains False))"

definition simulateGreedy ::
  "heap \<Rightarrow> addr list \<Rightarrow> int \<Rightarrow> int \<Rightarrow> bool \<times> int \<times> addr option \<times> addr option" where
  "simulateGreedy h domains sliceCount leaderCount =
     (case leaderPhase h domains sliceCount leaderCount of
        (selectedDomainsCount, lastDomainWithLeader, remainingLeaderCount,
         remainingSliceCount, remainingSorted) \<Rightarrow>
          if remainingLeaderCount > 0 then (False, 0, None, None)
          else (case sliceLoop h remainingSorted selectedDomainsCount None remainingSliceCount of
                  (selectedDomainsCount', lastDomain, remainingSliceCount') \<Rightarrow>
                    if remainingSliceCount' > 0 then (False, 0, None, None)
                    else (True, selectedDomainsCount', lastDomainWithLeader, lastDomain)))"

section \<open>The threshold solver\<close>

datatype panic = DivideByZero

definition balanceThresholdValue ::
  "heap \<Rightarrow> addr \<Rightarrow> int \<Rightarrow> int \<Rightarrow> bool \<Rightarrow> panic + (int \<times> bool)" where
  "balanceThresholdValue h startingDomain sliceCount leaderCount balanceOnChildren =
     (if sliceCount = 0 \<and> leaderCount = 0 then Inr (0, True)
      else if sliceStateWithLeader (h startingDomain) < sliceCount
              \<or> leaderState (h startingDomain) < leaderCount then Inr (0, False)
      else
        (let domainsToBalance =
               (if balanceOnChildren then children (h startingDomain)
                else grandchildren h startingDomain)
         in case simulateGreedy h domainsToBalance sliceCount leaderCount of
              (fits, selectedDomainsCount, lastDomainWithLeader, lastDomain) \<Rightarrow>
                if \<not> fits then Inr (0, False)
                else if selectedDomainsCount = 0 then Inl DivideByZero
                else
                  (let threshold = sliceCount sdiv selectedDomainsCount;
                       threshold1 = (case lastDomainWithLeader of
                                       None \<Rightarrow> threshold
                                     | Some l \<Rightarrow> min threshold (sliceStateWithLeader (h l)));
                       threshold2 = (case lastDomain of
                                       None \<Rightarrow> threshold1
                                     | Some l \<Rightarrow> min threshold1 (sliceState (h l)))
                   in Inr (threshold2, True))))"

section \<open>The placement dynamic program\<close>

text \<open>
  A Go map with \<open>int32\<close> keys is an association list with pairwise different keys:
  \<open>map_of\<close> reads it, \<open>AList.update\<close> writes it, and \<open>sortedKeys\<close> is
  \<open>slices.Sorted(maps.Keys(m))\<close>. The nil map and the empty map are both \<open>[]\<close>; the
  code never tells them apart other than by reading and ranging over them.
  A layer is \<open>domainPlacements[i]\<close>, a row is \<open>domainPlacements[i][j]\<close>.
\<close>

type_synonym row = "(int \<times> addr list) list"
type_synonym layer = "(int \<times> row) list"

definition sortedKeys :: "(int \<times> 'v) list \<Rightarrow> int list" where
  "sortedKeys m = sort (map fst m)"

definition rowOf :: "layer \<Rightarrow> int \<Rightarrow> row" where
  "rowOf l j = (case map_of l j of None \<Rightarrow> [] | Some r \<Rightarrow> r)"

text \<open>Reading an absent key of a Go map gives the zero value, here the nil slice.\<close>

definition placementOf :: "layer \<Rightarrow> int \<Rightarrow> int \<Rightarrow> addr list" where
  "placementOf l j k = (case map_of (rowOf l j) k of None \<Rightarrow> [] | Some p \<Rightarrow> p)"

text \<open>
  The two writes of the loop body have the same shape: create the row when it is absent,
  then store the placement unless the cell is already there.
\<close>

definition writeIfAbsent :: "nat \<Rightarrow> int \<Rightarrow> int \<Rightarrow> addr list \<Rightarrow> layer list \<Rightarrow> layer list" where
  "writeIfAbsent i afterLeader afterState newPlacement domainPlacements =
     (let r = rowOf (domainPlacements ! i) afterLeader
      in if map_of r afterState = None
         then domainPlacements
                [i := AList.update afterLeader (AList.update afterState newPlacement r)
                        (domainPlacements ! i)]
         else domainPlacements)"

text \<open>The body of the innermost loop, for one domain \<open>d\<close>, one \<open>i\<close> and one cell of layer \<open>i - 1\<close>.\<close>

definition visitCell :: "heap \<Rightarrow> addr \<Rightarrow> nat \<Rightarrow> int \<Rightarrow> int \<Rightarrow> layer list \<Rightarrow> layer list" where
  "visitCell h d i beforeLeader beforeState domainPlacements =
     (let beforePlacement = placementOf (domainPlacements ! (i - 1)) beforeLeader beforeState
      in if beforeLeader \<le> 0 \<and> beforeState \<le> 0 then domainPlacements
         else
           (let newPlacement = beforePlacement @ [d];
                withLeader =
                  (if beforeLeader > 0 \<and> leaderState (h d) > 0
                   then writeIfAbsent i (beforeLeader - leaderState (h d))
                          (beforeState - stateWithLeader (h d)) newPlacement domainPlacements
                   else domainPlacements)
            in if sliceState (h d) > 0
               then writeIfAbsent i beforeLeader (beforeState - state (h d)) newPlacement withLeader
               else withLeader))"

definition visitRow :: "heap \<Rightarrow> addr \<Rightarrow> nat \<Rightarrow> int \<Rightarrow> layer list \<Rightarrow> layer list" where
  "visitRow h d i beforeLeader domainPlacements =
     foldl (\<lambda>dp beforeState. visitCell h d i beforeLeader beforeState dp) domainPlacements
       (sortedKeys (rowOf (domainPlacements ! (i - 1)) beforeLeader))"

definition visitLayer :: "heap \<Rightarrow> addr \<Rightarrow> nat \<Rightarrow> layer list \<Rightarrow> layer list" where
  "visitLayer h d i domainPlacements =
     foldl (\<lambda>dp beforeLeader. visitRow h d i beforeLeader dp) domainPlacements
       (sortedKeys (domainPlacements ! (i - 1)))"

text \<open>\<open>for i := optimalNumberOfDomains; i > 0; i--\<close>\<close>

definition visitDomain :: "heap \<Rightarrow> nat \<Rightarrow> addr \<Rightarrow> layer list \<Rightarrow> layer list" where
  "visitDomain h optimalNumberOfDomains d domainPlacements =
     foldl (\<lambda>dp i. visitLayer h d i dp) domainPlacements (rev [1..<Suc optimalNumberOfDomains])"

definition initialPlacements :: "nat \<Rightarrow> int \<Rightarrow> int \<Rightarrow> int \<Rightarrow> layer list" where
  "initialPlacements optimalNumberOfDomains sliceCount leaderCount sliceSize =
     (replicate (Suc optimalNumberOfDomains) [])
       [0 := [(leaderCount, [(sliceCount * sliceSize, [])])]]"

definition fillPlacements ::
  "heap \<Rightarrow> addr list \<Rightarrow> nat \<Rightarrow> int \<Rightarrow> int \<Rightarrow> int \<Rightarrow> layer list" where
  "fillPlacements h domains optimalNumberOfDomains sliceCount leaderCount sliceSize =
     foldl (\<lambda>dp d. visitDomain h optimalNumberOfDomains d dp)
       (initialPlacements optimalNumberOfDomains sliceCount leaderCount sliceSize) domains"

text \<open>
  The first selection loop is \<open>for j := range slices.Sorted(...)\<close>: with a single loop
  variable, \<open>range\<close> over a slice yields the indices \<open>0, 1, ...\<close>, not the keys, and
  \<open>leadersLeft\<close> is \<open>int32(j)\<close>.
\<close>

definition bestLeaderStep :: "layer \<Rightarrow> int \<times> row \<Rightarrow> nat \<Rightarrow> int \<times> row" where
  "bestLeaderStep l best j =
     (let leadersLeft = int j
      in if leadersLeft > fst best \<and> leadersLeft \<le> 0 then (leadersLeft, rowOf l leadersLeft)
         else best)"

definition bestLeaderPlacement :: "layer \<Rightarrow> row" where
  "bestLeaderPlacement l =
     snd (foldl (bestLeaderStep l) (- (2 ^ 31), []) [0..<length (sortedKeys l)])"

text \<open>The second selection loop is \<open>for _, slicesLeft := range slices.Sorted(...)\<close>: the keys.\<close>

definition bestSliceStep :: "row \<Rightarrow> int \<times> addr list option \<Rightarrow> int \<Rightarrow> int \<times> addr list option" where
  "bestSliceStep r best slicesLeft =
     (if slicesLeft > fst best \<and> slicesLeft \<le> 0 then (slicesLeft, map_of r slicesLeft)
      else best)"

definition bestSlicePlacement :: "row \<Rightarrow> addr list option" where
  "bestSlicePlacement r = snd (foldl (bestSliceStep r) (- (2 ^ 31), None) (sortedKeys r))"

text \<open>
  \<open>sortDomainsByCapacityAndEntropy\<close> compares floating-point entropies; it is the
  parameter \<open>entropySort\<close>, which gives the order of the slice after the call. It reorders
  the caller's slice and leaves the domain objects alone. The result \<open>None\<close> is the nil
  slice, \<open>Some []\<close> the empty one. The count that \<open>simulateGreedy\<close> returns is never
  negative, so \<open>nat\<close> loses nothing and the table has \<open>optimalNumberOfDomains + 1\<close>
  layers.
\<close>

definition selectOptimalDomainSetToFit ::
  "(heap \<Rightarrow> addr list \<Rightarrow> addr list) \<Rightarrow> heap \<Rightarrow> addr list \<Rightarrow> int \<Rightarrow> int \<Rightarrow> int \<Rightarrow> bool
     \<Rightarrow> addr list option" where
  "selectOptimalDomainSetToFit entropySort h domains sliceCount leaderCount sliceSize priorizeByEntropy =
     (case simulateGreedy h domains sliceCount leaderCount of
        (fit, optimalNumberOfDomains, _, _) \<Rightarrow>
          if \<not> fit then None
          else
            (let domains' = (if priorizeByEntropy then entropySort h domains else domains);
                 domainPlacements =
                   fillPlacements h domains' (nat optimalNumberOfDomains)
                     sliceCount leaderCount sliceSize
             in bestSlicePlacement
                  (bestLeaderPlacement (domainPlacements ! nat optimalNumberOfDomains))))"

section \<open>The balancer\<close>

text \<open>
  One iteration of the loop over \<open>resultDomains\<close>: the \<open>switch\<close>, then the four field
  updates in the order of the code, each reading the fields as the previous ones left them.
  The loop state is the store, \<open>extraSlicesLeft\<close> and \<open>leadersLeft\<close>;
  \<open>extraSlicesToTake\<close> is assigned in every branch of the \<open>switch\<close> before it is read.
\<close>

definition balanceStep ::
  "int \<Rightarrow> int \<Rightarrow> heap \<times> int \<times> int \<Rightarrow> addr \<Rightarrow> heap \<times> int \<times> int" where
  "balanceStep threshold sliceSize st a =
     (case st of (h, extraSlicesLeft, leadersLeft) \<Rightarrow>
        (let (extraSlicesToTake, leader, leadersLeft') =
               (if leadersLeft > 0
                then (min (sliceStateWithLeader (h a) - threshold) extraSlicesLeft, 1,
                      leadersLeft - 1)
                else if extraSlicesLeft > 0
                then (min (sliceState (h a) - threshold) extraSlicesLeft, 0, leadersLeft)
                else (0, 0, leadersLeft));
             d1 = (h a)\<lparr>leaderState := leader\<rparr>;
             d2 = d1\<lparr>state := (threshold + extraSlicesToTake) * sliceSize\<rparr>;
             d3 = d2\<lparr>sliceState := threshold + extraSlicesToTake\<rparr>;
             d4 = d3\<lparr>sliceStateWithLeader := sliceState d3 - leaderState d3\<rparr>;
             d5 = d4\<lparr>stateWithLeader := state d4 - leaderState d4\<rparr>
         in (h(a := d5), extraSlicesLeft - extraSlicesToTake, leadersLeft')))"

text \<open>
  The result is the returned slice (\<open>None\<close> for nil), the diagnostic, and the store as
  the call leaves it. The call passes \<open>false\<close> for \<open>priorizeByEntropy\<close>, so the entropy
  order is never asked for.
\<close>

definition placeSlicesOnDomainsBalanced ::
  "heap \<Rightarrow> addr list \<Rightarrow> int \<Rightarrow> int \<Rightarrow> int \<Rightarrow> int \<Rightarrow> addr list option \<times> string \<times> heap" where
  "placeSlicesOnDomainsBalanced h domains sliceCount leaderCount sliceSize threshold =
     (case selectOptimalDomainSetToFit (\<lambda>h ds. ds) h domains sliceCount leaderCount sliceSize False of
        None \<Rightarrow>
          (None, ''TAS Balanced Placement Error: Cannot find optimal domain set to fit'', h)
      | Some resultDomains \<Rightarrow>
          if sliceCount < int (length resultDomains) * threshold
          then (None, ''TAS Balanced Placement Error: Not enough slices to meet the threshold'', h)
          else
            (let resultDomains' = sortedDomainsWithLeader h resultDomains False;
                 extraSlicesLeft = sliceCount - int (length resultDomains') * threshold
             in case foldl (balanceStep threshold sliceSize)
                       (h, extraSlicesLeft, leaderCount) resultDomains' of
                  (h', extraSlicesLeft', leadersLeft') \<Rightarrow>
                    if extraSlicesLeft' > 0 \<or> leadersLeft' > 0
                    then (None,
                          ''TAS Balanced Placement Error: Not all slices or leaders could be placed'',
                          h')
                    else (Some resultDomains', [], h')))"

section \<open>Definitions that follow the specification\<close>

text \<open>
  The threshold as the specification words it: the floor of \<open>slice_count / selected_count\<close>,
  reduced by \<open>min\<close> with the capacity of each of the two last domains that is present.
\<close>

definition floorThreshold :: "heap \<Rightarrow> int \<Rightarrow> int \<Rightarrow> addr option \<Rightarrow> addr option \<Rightarrow> int" where
  "floorThreshold h sliceCount selectedCount lastWithLeader lastDomain =
     fold min
       ((case lastWithLeader of None \<Rightarrow> [] | Some l \<Rightarrow> [sliceStateWithLeader (h l)]) @
        (case lastDomain of None \<Rightarrow> [] | Some l \<Rightarrow> [sliceState (h l)]))
       (sliceCount div selectedCount)"


section \<open>Predicates for the invariants of the dynamic program\<close>

text \<open>The placements stored in the cells of a layer.\<close>

definition placementsAt :: "layer \<Rightarrow> addr list set" where
  "placementsAt l = {p. \<exists>j r k. map_of l j = Some r \<and> map_of r k = Some p}"

text \<open>
  What a pass over layer \<open>i - 1\<close> for domain \<open>d\<close> may do to the table: it touches layer
  \<open>i\<close> only, and every placement it adds there is a placement of layer \<open>i - 1\<close> with
  \<open>d\<close> appended.
\<close>

definition extends :: "addr \<Rightarrow> nat \<Rightarrow> layer list \<Rightarrow> layer list \<Rightarrow> bool" where
  "extends d i dp dp' \<longleftrightarrow>
     length dp' = length dp \<and> (\<forall>i'. i' \<noteq> i \<longrightarrow> dp' ! i' = dp ! i') \<and>
     placementsAt (dp' ! i) \<subseteq> placementsAt (dp ! i) \<union> (\<lambda>q. q @ [d]) ` placementsAt (dp ! (i - 1))"

section \<open>Example topologies\<close>

text \<open>A leaf domain for slice size 1, where \<open>state\<close> and \<open>sliceState\<close> coincide.\<close>

definition leaf :: "int \<Rightarrow> int \<Rightarrow> int \<Rightarrow> domain" where
  "leaf slices slicesWithLeader leaders =
     \<lparr>level = 1, children = [], sliceState = slices, sliceStateWithLeader = slicesWithLeader,
      leaderState = leaders, state = slices, stateWithLeader = slicesWithLeader\<rparr>"

text \<open>A root at address 0 with four children of four slices each, at addresses 1 to 4.\<close>

definition fourChildren :: heap where
  "fourChildren =
     (\<lambda>_. leaf 4 4 0)
       (0 := \<lparr>level = 0, children = [1, 2, 3, 4], sliceState = 16, sliceStateWithLeader = 16,
              leaderState = 0, state = 16, stateWithLeader = 16\<rparr>)"

text \<open>An order that \<open>sortDomainsByCapacityAndEntropy\<close> could leave behind: the reverse.\<close>

definition reverseOrder :: "heap \<Rightarrow> addr list \<Rightarrow> addr list" where
  "reverseOrder h ds = rev ds"

text \<open>Two children of two slices each (any address holds such a child).\<close>

definition twoSmall :: heap where
  "twoSmall = (\<lambda>_. leaf 2 2 0)"


text \<open>
  Addresses 0 and 1 can host a leader, with 5 of 10 and 4 of 4 slices left beside it;
  every other address holds a domain of nine slices that cannot host a leader.
\<close>

definition leaderMismatch :: heap where
  "leaderMismatch = (\<lambda>_. leaf 9 0 0)(0 := leaf 10 5 1, 1 := leaf 4 4 1)"



text \<open>Every address holds a domain of five slices that can host a leader.\<close>

definition oneLeader :: heap where
  "oneLeader = (\<lambda>_. leaf 5 5 1)"



text \<open>
  Address 0 can host a leader next to two of its three slices; every other address holds
  a domain of the same capacities that cannot host one.
\<close>

definition sharedLeader :: heap where
  "sharedLeader = (\<lambda>_. leaf 3 2 0)(0 := leaf 3 2 1)"

text \<open>Address 0 holds an empty domain, every other address a domain of one slice.\<close>

definition emptyAndOne :: heap where
  "emptyAndOne = (\<lambda>_. leaf 1 1 1)(0 := leaf 0 0 1)"

section \<open>Facts about the feasibility simulator\<close>

text \<open>
  Both loops only ever increase the number of selected domains, and a loop that changed
  its remaining count has selected at least one domain.
\<close>

lemma leaderLoop_count:
  "leaderLoop h xs c l rl rs = (c', l', rl', rs', rest) \<Longrightarrow> c \<le> c' \<and> (rl' \<noteq> rl \<longrightarrow> c < c')"
proof (induction xs arbitrary: c l rl rs)
  case Nil
  then show ?case by simp
next
  case (Cons a xs)
  show ?case
  proof (cases "rl > 0 \<and> leaderState (h a) > 0")
    case True
    with Cons.prems have "leaderLoop h xs (c + 1) (Some a) (rl - leaderState (h a))
        (rs - sliceStateWithLeader (h a)) = (c', l', rl', rs', rest)" by simp
    from Cons.IH[OF this] show ?thesis by simp
  next
    case False
    with Cons.prems show ?thesis by auto
  qed
qed

lemma sliceLoop_count:
  "sliceLoop h xs c l rs = (c', l', rs') \<Longrightarrow> c \<le> c' \<and> (rs' \<noteq> rs \<longrightarrow> c < c')"
proof (induction xs arbitrary: c l rs)
  case Nil
  then show ?case by simp
next
  case (Cons a xs)
  show ?case
  proof (cases "rs > 0 \<and> sliceState (h a) > 0")
    case True
    with Cons.prems have "sliceLoop h xs (c + 1) (Some a) (rs - sliceState (h a)) = (c', l', rs')"
      by simp
    from Cons.IH[OF this] show ?thesis by simp
  next
    case False
    with Cons.prems show ?thesis by auto
  qed
qed

lemma leaderPhase_count:
  assumes "leaderPhase h ds sc lc = (c, l, rl, rs, rest)"
  shows "0 \<le> c \<and> (0 < lc \<and> rl \<le> 0 \<longrightarrow> 1 \<le> c) \<and> (\<not> 0 < lc \<longrightarrow> rl = lc \<and> rs = sc)"
proof (cases "0 < lc")
  case True
  obtain c0 l0 rl0 rs0 rest0 where
    ll: "leaderLoop h (sortedDomainsWithLeader h ds False) 0 None lc sc = (c0, l0, rl0, rs0, rest0)"
    by (metis prod_cases5)
  with True assms have eq: "c = c0" "rl = rl0" by (simp_all add: leaderPhase_def)
  from leaderLoop_count[OF ll] True show ?thesis unfolding eq by auto
next
  case False
  with assms show ?thesis by (simp add: leaderPhase_def)
qed

lemma simulateGreedy_count:
  assumes fit: "simulateGreedy h ds sc lc = (True, cnt, lwl, ld)"
  shows "0 \<le> cnt \<and> (0 \<le> sc \<and> 0 \<le> lc \<and> \<not> (sc = 0 \<and> lc = 0) \<longrightarrow> 1 \<le> cnt)"
proof -
  obtain c l rl rs rest where lp: "leaderPhase h ds sc lc = (c, l, rl, rs, rest)"
    by (metis prod_cases5)
  obtain c' l' rs' where sl: "sliceLoop h rest c None rs = (c', l', rs')"
    by (metis prod_cases3)
  from fit lp sl have rl: "\<not> 0 < rl" and rs': "\<not> 0 < rs'" and cnt: "cnt = c'"
    by (auto simp: simulateGreedy_def split: if_splits)
  note a = leaderPhase_count[OF lp] and b = sliceLoop_count[OF sl]
  show ?thesis unfolding cnt using a b rl rs' by auto
qed

section \<open>The threshold solver never divides by zero\<close>

text \<open>
  Claim C10. For nonnegative \<open>sliceCount\<close> and \<open>leaderCount\<close>, \<open>balanceThresholdValue\<close>
  never reaches the division \<open>sliceCount / selectedDomainsCount\<close> with a zero divisor:
  the panic is not among its results, and whenever the request is not all-zero and
  \<open>simulateGreedy\<close> reports a fit, the number of selected domains is at least one.
\<close>

theorem balanceThresholdValue_never_divides_by_zero:
  assumes "0 \<le> sliceCount" and "0 \<le> leaderCount"
  shows "balanceThresholdValue h startingDomain sliceCount leaderCount balanceOnChildren
           \<noteq> Inl DivideByZero
         \<and> (\<forall>ds cnt lwl ld.
              \<not> (sliceCount = 0 \<and> leaderCount = 0) \<and>
              simulateGreedy h ds sliceCount leaderCount = (True, cnt, lwl, ld)
              \<longrightarrow> 1 \<le> cnt)"
proof -
  have pos: "1 \<le> cnt"
    if "\<not> (sliceCount = 0 \<and> leaderCount = 0)"
      and "simulateGreedy h ds sliceCount leaderCount = (True, cnt, lwl, ld)"
    for ds cnt lwl ld
    using simulateGreedy_count[OF that(2)] that(1) assms by simp
  let ?ds = "if balanceOnChildren then children (h startingDomain)
             else grandchildren h startingDomain"
  obtain fits cnt lwl ld where sim: "simulateGreedy h ?ds sliceCount leaderCount = (fits, cnt, lwl, ld)"
    by (metis prod_cases4)
  have "balanceThresholdValue h startingDomain sliceCount leaderCount balanceOnChildren
           \<noteq> Inl DivideByZero"
  proof (cases "\<not> (sliceCount = 0 \<and> leaderCount = 0) \<and> fits")
    case True
    with sim pos[of ?ds cnt lwl ld] have "cnt \<noteq> 0" by auto
    with sim show ?thesis
      by (simp add: balanceThresholdValue_def Let_def)
  next
    case False
    with sim show ?thesis
      by (auto simp add: balanceThresholdValue_def Let_def)
  qed
  with pos show ?thesis by blast
qed

theorem balanceThresholdValue_never_divides_by_zero_witness:
  "(0::int) \<le> 10 \<and> (0::int) \<le> 0
   \<and> balanceThresholdValue fourChildren 0 10 0 True \<noteq> Inl DivideByZero
   \<and> simulateGreedy fourChildren [1, 2, 3, 4] 10 0 = (True, 3, None, Some 3)
   \<and> balanceThresholdValue fourChildren 0 10 0 True = Inr (3, True)"
proof -
  have a: "(0::int) \<le> 10" and b: "(0::int) \<le> 0" by simp_all
  have sim: "simulateGreedy fourChildren [1, 2, 3, 4] 10 0 = (True, 3, None, Some 3)"
    by code_simp
  have val: "balanceThresholdValue fourChildren 0 10 0 True = Inr (3, True)"
    by code_simp
  from balanceThresholdValue_never_divides_by_zero[OF a b, of fourChildren 0 True]
  have "balanceThresholdValue fourChildren 0 10 0 True \<noteq> Inl DivideByZero"
    by (rule conjunct1)
  with a b sim val show ?thesis by blast
qed

section \<open>The value of the threshold\<close>

text \<open>
  Claim C6. For a request with nonnegative counts: the all-zero request gives \<open>(0, true)\<close>;
  otherwise, if the starting domain covers the request and the greedy simulation over the
  children (or grandchildren) fits, the result is \<open>(T, true)\<close>, where \<open>T\<close> is the floor of
  \<open>sliceCount / selectedCount\<close> reduced by \<open>min\<close> with the capacity of each last domain
  that is present; in all other cases the result is \<open>(0, false)\<close>.
\<close>

theorem balanceThresholdValue_cases:
  assumes "0 \<le> sliceCount" and "0 \<le> leaderCount"
    and sim: "simulateGreedy h
          (if balanceOnChildren then children (h startingDomain)
           else grandchildren h startingDomain) sliceCount leaderCount
        = (fits, selectedCount, lastWithLeader, lastDomain)"
  shows "balanceThresholdValue h startingDomain sliceCount leaderCount balanceOnChildren =
           (if sliceCount = 0 \<and> leaderCount = 0 then Inr (0, True)
            else if sliceCount \<le> sliceStateWithLeader (h startingDomain)
                    \<and> leaderCount \<le> leaderState (h startingDomain) \<and> fits
            then Inr (floorThreshold h sliceCount selectedCount lastWithLeader lastDomain, True)
            else Inr (0, False))"
proof (cases "\<not> (sliceCount = 0 \<and> leaderCount = 0) \<and> fits")
  case True
  with sim simulateGreedy_count[of h _ sliceCount leaderCount selectedCount lastWithLeader lastDomain]
    assms(1,2)
  have pos: "1 \<le> selectedCount" by auto
  have sd: "sliceCount sdiv selectedCount = sliceCount div selectedCount"
    using pos assms(1) by (simp add: signed_divide_int_def sgn_if)
  from True pos sim show ?thesis
    by (cases lastWithLeader; cases lastDomain)
       (auto simp add: balanceThresholdValue_def Let_def sd floorThreshold_def not_less)
next
  case False
  with sim show ?thesis
    by (auto simp add: balanceThresholdValue_def Let_def)
qed

theorem balanceThresholdValue_cases_witness:
  "(0::int) \<le> 10 \<and> (0::int) \<le> 0
   \<and> simulateGreedy fourChildren
         (if True then children (fourChildren 0) else grandchildren fourChildren 0) 10 0
       = (True, 3, None, Some 3)
   \<and> balanceThresholdValue fourChildren 0 10 0 True = Inr (3, True)"
proof -
  have a: "(0::int) \<le> 10" and b: "(0::int) \<le> 0" by simp_all
  have sim: "simulateGreedy fourChildren
         (if True then children (fourChildren 0) else grandchildren fourChildren 0) 10 0
       = (True, 3, None, Some 3)"
    by code_simp
  have cover: "(10::int) \<le> sliceStateWithLeader (fourChildren 0)"
    "(0::int) \<le> leaderState (fourChildren 0)"
    by (simp_all add: fourChildren_def)
  have T: "floorThreshold fourChildren 10 3 None (Some 3) = 3"
    by (simp add: floorThreshold_def fourChildren_def leaf_def)
  from balanceThresholdValue_cases[OF a b sim] cover T
  have "balanceThresholdValue fourChildren 0 10 0 True = Inr (3, True)"
    by simp
  with a b sim show ?thesis by blast
qed

section \<open>Invariants of the dynamic program\<close>

text \<open>
  A pass for domain \<open>d\<close> and layer index \<open>i\<close> reads layer \<open>i - 1\<close> and writes layer
  \<open>i\<close>; since \<open>i\<close> runs downwards, the layer it reads has not yet seen \<open>d\<close>.
\<close>

lemma sortedKeys_set: "set (sortedKeys m) = fst ` set m"
  by (simp add: sortedKeys_def)

lemma placementOf_in:
  assumes "j \<in> set (sortedKeys l)" and "k \<in> set (sortedKeys (rowOf l j))"
  shows "placementOf l j k \<in> placementsAt l"
proof -
  from assms(1) have "map_of l j \<noteq> None"
    by (simp add: sortedKeys_set map_of_eq_None_iff)
  then obtain r where r: "map_of l j = Some r" by blast
  then have ro: "rowOf l j = r" by (simp add: rowOf_def)
  from assms(2) ro have "map_of r k \<noteq> None"
    by (simp add: sortedKeys_set map_of_eq_None_iff)
  then obtain p where p: "map_of r k = Some p" by blast
  with r ro show ?thesis by (auto simp: placementsAt_def placementOf_def)
qed

lemma placementsAt_update:
  assumes "map_of (rowOf l j) k = None"
  shows "placementsAt (AList.update j (AList.update k p (rowOf l j)) l) = insert p (placementsAt l)"
proof (rule set_eqI)
  fix q
  show "q \<in> placementsAt (AList.update j (AList.update k p (rowOf l j)) l)
        \<longleftrightarrow> q \<in> insert p (placementsAt l)"
  proof
    assume "q \<in> placementsAt (AList.update j (AList.update k p (rowOf l j)) l)"
    then obtain j' r k' where
      r: "((map_of l)(j \<mapsto> AList.update k p (rowOf l j))) j' = Some r" and q: "map_of r k' = Some q"
      by (auto simp: placementsAt_def update_conv')
    show "q \<in> insert p (placementsAt l)"
    proof (cases "j' = j")
      case True
      with r have "r = AList.update k p (rowOf l j)" by simp
      with q have q': "((map_of (rowOf l j))(k \<mapsto> p)) k' = Some q" by (simp add: update_conv')
      show ?thesis
      proof (cases "k' = k")
        case True
        with q' show ?thesis by simp
      next
        case False
        with q' have "map_of (rowOf l j) k' = Some q" by simp
        then show ?thesis
          by (auto simp: placementsAt_def rowOf_def split: option.splits)
      qed
    next
      case False
      with r q show ?thesis by (auto simp: placementsAt_def)
    qed
  next
    assume "q \<in> insert p (placementsAt l)"
    then show "q \<in> placementsAt (AList.update j (AList.update k p (rowOf l j)) l)"
    proof
      assume "q = p"
      moreover have "map_of (AList.update j (AList.update k p (rowOf l j)) l) j
                       = Some (AList.update k p (rowOf l j))"
        and "map_of (AList.update k p (rowOf l j)) k = Some p"
        by (simp_all add: update_conv')
      ultimately show ?thesis
        unfolding placementsAt_def by blast
    next
      assume "q \<in> placementsAt l"
      then obtain j' r k' where r: "map_of l j' = Some r" and q: "map_of r k' = Some q"
        by (auto simp: placementsAt_def)
      show ?thesis
      proof (cases "j' = j")
        case True
        with r have ro: "rowOf l j = r" by (simp add: rowOf_def)
        with assms q have "k' \<noteq> k" by auto
        with q ro have "map_of (AList.update k p (rowOf l j)) k' = Some q"
          by (simp add: update_conv')
        moreover have "map_of (AList.update j (AList.update k p (rowOf l j)) l) j
                         = Some (AList.update k p (rowOf l j))"
          by (simp add: update_conv')
        ultimately show ?thesis
          unfolding placementsAt_def by blast
      next
        case False
        with r have "map_of (AList.update j (AList.update k p (rowOf l j)) l) j' = Some r"
          by (simp add: update_conv')
        with q show ?thesis
          unfolding placementsAt_def by blast
      qed
    qed
  qed
qed

lemma writeIfAbsent_length [simp]: "length (writeIfAbsent i j k p dp) = length dp"
  by (simp add: writeIfAbsent_def Let_def)

lemma writeIfAbsent_other: "i' \<noteq> i \<Longrightarrow> writeIfAbsent i j k p dp ! i' = dp ! i'"
  by (simp add: writeIfAbsent_def Let_def)

lemma writeIfAbsent_cells:
  assumes "i < length dp"
  shows "placementsAt (writeIfAbsent i j k p dp ! i) \<subseteq> insert p (placementsAt (dp ! i))"
proof (cases "map_of (rowOf (dp ! i) j) k = None")
  case True
  with assms show ?thesis
    by (simp add: writeIfAbsent_def Let_def placementsAt_update)
next
  case False
  then show ?thesis by (auto simp add: writeIfAbsent_def Let_def)
qed

lemma extends_refl: "extends d i dp dp"
  by (simp add: extends_def)

lemma extends_trans:
  assumes "1 \<le> i" and "extends d i dp dp'" and "extends d i dp' dp''"
  shows "extends d i dp dp''"
proof -
  from assms(1) have "i - 1 \<noteq> i" by simp
  with assms(2) have "dp' ! (i - 1) = dp ! (i - 1)" by (simp add: extends_def)
  with assms(2,3) show ?thesis unfolding extends_def by auto
qed

lemma visitCell_extends:
  assumes i: "1 \<le> i" "i < length dp"
    and keys: "j \<in> set (sortedKeys (dp ! (i - 1)))" "k \<in> set (sortedKeys (rowOf (dp ! (i - 1)) j))"
  shows "extends d i dp (visitCell h d i j k dp)"
proof -
  define np where "np = placementOf (dp ! (i - 1)) j k @ [d]"
  have np: "np \<in> (\<lambda>q. q @ [d]) ` placementsAt (dp ! (i - 1))"
    unfolding np_def using placementOf_in[OF keys] by blast
  have w: "extends d i dp' (writeIfAbsent i j' k' np dp')"
    if "length dp' = length dp" "dp' ! (i - 1) = dp ! (i - 1)" for dp' j' k'
    using writeIfAbsent_cells[of i dp' j' k' np] i that np
    by (auto simp: extends_def writeIfAbsent_other)
  define wl where "wl = (if j > 0 \<and> leaderState (h d) > 0
             then writeIfAbsent i (j - leaderState (h d)) (k - stateWithLeader (h d)) np dp
             else dp)"
  have e1: "extends d i dp wl"
    unfolding wl_def using w[of dp] by (simp add: extends_refl)
  then have "length wl = length dp" "wl ! (i - 1) = dp ! (i - 1)"
    using i by (auto simp: extends_def)
  from w[OF this] have e2: "extends d i wl (writeIfAbsent i j (k - state (h d)) np wl)" .
  have e12: "extends d i dp (writeIfAbsent i j (k - state (h d)) np wl)"
    by (rule extends_trans[OF i(1) e1 e2])
  have "visitCell h d i j k dp =
          (if j \<le> 0 \<and> k \<le> 0 then dp
           else if sliceState (h d) > 0 then writeIfAbsent i j (k - state (h d)) np wl
           else wl)"
    by (simp add: visitCell_def Let_def wl_def np_def)
  with e1 e12 show ?thesis
    by (simp add: extends_refl)
qed

lemma foldl_extends:
  assumes i: "1 \<le> i"
    and step: "\<And>x dp'. x \<in> set xs \<Longrightarrow> extends d i dp dp' \<Longrightarrow> extends d i dp' (f dp' x)"
  shows "extends d i dp (foldl f dp xs)"
proof -
  have "extends d i dp dp' \<Longrightarrow> extends d i dp (foldl f dp' xs)" for dp'
    using step
  proof (induction xs arbitrary: dp')
    case Nil
    then show ?case by simp
  next
    case (Cons x xs)
    have "extends d i dp (f dp' x)"
      by (rule extends_trans[OF i Cons.prems(1)]) (simp add: Cons.prems)
    then show ?case using Cons.IH Cons.prems(2) by simp
  qed
  from this[OF extends_refl] show ?thesis .
qed

lemma visitRow_extends:
  assumes i: "1 \<le> i" "i < length dp" and key: "j \<in> set (sortedKeys (dp ! (i - 1)))"
  shows "extends d i dp (visitRow h d i j dp)"
  unfolding visitRow_def
proof (rule foldl_extends[OF i(1)])
  fix k dp'
  assume k: "k \<in> set (sortedKeys (rowOf (dp ! (i - 1)) j))" and e: "extends d i dp dp'"
  from e i have same: "dp' ! (i - 1) = dp ! (i - 1)" "length dp' = length dp"
    by (auto simp: extends_def)
  show "extends d i dp' (visitCell h d i j k dp')"
    by (rule visitCell_extends) (use i key k same in simp_all)
qed

lemma visitLayer_extends:
  assumes i: "1 \<le> i" "i < length dp"
  shows "extends d i dp (visitLayer h d i dp)"
  unfolding visitLayer_def
proof (rule foldl_extends[OF i(1)])
  fix j dp'
  assume j: "j \<in> set (sortedKeys (dp ! (i - 1)))" and e: "extends d i dp dp'"
  from e i have same: "dp' ! (i - 1) = dp ! (i - 1)" "length dp' = length dp"
    by (auto simp: extends_def)
  show "extends d i dp' (visitRow h d i j dp')"
    by (rule visitRow_extends) (use i j same in simp_all)
qed

lemma rev_upt_Suc: "rev [1..<Suc (Suc m)] = Suc m # rev [1..<Suc m]"
  by simp

lemma visitLayers_invariant:
  assumes mono: "\<And>i p. Q i p \<Longrightarrow> Q' i p"
    and step: "\<And>i q. Q i q \<Longrightarrow> Q' (Suc i) (q @ [d])"
  shows "m \<le> n \<Longrightarrow> length dp = Suc n \<Longrightarrow>
     (\<forall>i\<le>n. \<forall>p \<in> placementsAt (dp ! i). if m < i then Q' i p else Q i p) \<Longrightarrow>
     length (foldl (\<lambda>dp i. visitLayer h d i dp) dp (rev [1..<Suc m])) = Suc n \<and>
     (\<forall>i\<le>n. \<forall>p \<in> placementsAt (foldl (\<lambda>dp i. visitLayer h d i dp) dp (rev [1..<Suc m]) ! i). Q' i p)"
proof (induction m arbitrary: dp)
  case 0
  have "Q' i p" if "i \<le> n" "p \<in> placementsAt (dp ! i)" for i p
    using "0.prems"(3) that mono by (auto split: if_splits)
  with "0.prems"(2) show ?case by simp
next
  case (Suc m)
  let ?dp = "visitLayer h d (Suc m) dp"
  have old: "if Suc m < i then Q' i p else Q i p" if "i \<le> n" "p \<in> placementsAt (dp ! i)" for i p
    using Suc.prems(3) that by blast
  have e: "extends d (Suc m) dp ?dp"
    by (rule visitLayer_extends) (use Suc.prems in simp_all)
  then have len: "length ?dp = Suc n" using Suc.prems(2) by (simp add: extends_def)
  have inv: "if m < i then Q' i p else Q i p" if i: "i \<le> n" and p: "p \<in> placementsAt (?dp ! i)" for i p
  proof (cases "i = Suc m")
    case True
    from e p True have "p \<in> placementsAt (dp ! Suc m) \<or> (\<exists>q \<in> placementsAt (dp ! m). p = q @ [d])"
      by (auto simp: extends_def)
    then show ?thesis
    proof
      assume "p \<in> placementsAt (dp ! Suc m)"
      with old[of "Suc m" p] Suc.prems(1) have "Q (Suc m) p" by simp
      with True mono show ?thesis by simp
    next
      assume "\<exists>q \<in> placementsAt (dp ! m). p = q @ [d]"
      then obtain q where q: "q \<in> placementsAt (dp ! m)" "p = q @ [d]" by blast
      with old[of m q] Suc.prems(1) have "Q m q" by simp
      with step q True show ?thesis by simp
    qed
  next
    case False
    with e have "?dp ! i = dp ! i" by (simp add: extends_def)
    with old[of i p] i p False show ?thesis by (auto split: if_splits)
  qed
  then have inv': "\<forall>i\<le>n. \<forall>p \<in> placementsAt (?dp ! i). if m < i then Q' i p else Q i p"
    by blast
  have "m \<le> n" using Suc.prems(1) by simp
  note ih = Suc.IH[OF this len inv']
  have eq: "foldl (\<lambda>dp i. visitLayer h d i dp) dp (rev [1..<Suc (Suc m)])
            = foldl (\<lambda>dp i. visitLayer h d i dp) ?dp (rev [1..<Suc m])"
    by (simp only: rev_upt_Suc foldl_Cons)
  show ?case unfolding eq by (rule ih)
qed

lemma visitDomain_invariant:
  assumes len: "length dp = Suc n"
    and old: "\<And>i p. i \<le> n \<Longrightarrow> p \<in> placementsAt (dp ! i) \<Longrightarrow> Q i p"
    and mono: "\<And>i p. Q i p \<Longrightarrow> Q' i p"
    and step: "\<And>i q. Q i q \<Longrightarrow> Q' (Suc i) (q @ [d])"
  shows "length (visitDomain h n d dp) = Suc n \<and>
         (\<forall>i\<le>n. \<forall>p \<in> placementsAt (visitDomain h n d dp ! i). Q' i p)"
  unfolding visitDomain_def
proof (rule visitLayers_invariant[of Q Q' d n n dp h])
  show "n \<le> n" by simp
  show "length dp = Suc n" by (rule len)
  show "\<forall>i\<le>n. \<forall>p \<in> placementsAt (dp ! i). if n < i then Q' i p else Q i p"
    using old by simp
qed (use mono step in auto)

lemma placementsAt_Nil [simp]: "placementsAt [] = {}"
  by (simp add: placementsAt_def)

lemma initialPlacements_length [simp]: "length (initialPlacements n sc lc ssz) = Suc n"
  by (simp add: initialPlacements_def)

lemma initialPlacements_cells:
  "p \<in> placementsAt (initialPlacements n sc lc ssz ! i) \<Longrightarrow> i \<le> n \<Longrightarrow> p = [] \<and> i = 0"
  by (auto simp: initialPlacements_def nth_Cons' placementsAt_def split: if_splits)

lemma fillPlacements_length:
  "length (fillPlacements h ds n sc lc ssz) = Suc n \<and>
   (\<forall>i\<le>n. \<forall>p \<in> placementsAt (fillPlacements h ds n sc lc ssz ! i). length p = i)"
proof -
  have "length dp = Suc n \<Longrightarrow> (\<forall>i\<le>n. \<forall>p \<in> placementsAt (dp ! i). length p = i) \<Longrightarrow>
        length (foldl (\<lambda>dp d. visitDomain h n d dp) dp ds) = Suc n \<and>
        (\<forall>i\<le>n. \<forall>p \<in> placementsAt (foldl (\<lambda>dp d. visitDomain h n d dp) dp ds ! i). length p = i)"
    for dp
  proof (induction ds arbitrary: dp)
    case Nil
    then show ?case by simp
  next
    case (Cons d ds)
    have "length (visitDomain h n d dp) = Suc n \<and>
         (\<forall>i\<le>n. \<forall>p \<in> placementsAt (visitDomain h n d dp ! i). length p = i)"
      by (rule visitDomain_invariant[where Q = "\<lambda>i p. length p = i"]) (use Cons.prems in auto)
    with Cons.IH[of "visitDomain h n d dp"] show ?case by simp
  qed
  from this[of "initialPlacements n sc lc ssz"] initialPlacements_cells[of _ n sc lc ssz]
  show ?thesis unfolding fillPlacements_def by fastforce
qed

lemma fillPlacements_distinct:
  assumes "distinct ds"
  shows "\<forall>i\<le>n. \<forall>p \<in> placementsAt (fillPlacements h ds n sc lc ssz ! i).
           distinct p \<and> set p \<subseteq> set ds"
proof -
  have "distinct ds \<Longrightarrow> S \<inter> set ds = {} \<Longrightarrow> length dp = Suc n \<Longrightarrow>
        (\<forall>i\<le>n. \<forall>p \<in> placementsAt (dp ! i). distinct p \<and> set p \<subseteq> S) \<Longrightarrow>
        (\<forall>i\<le>n. \<forall>p \<in> placementsAt (foldl (\<lambda>dp d. visitDomain h n d dp) dp ds ! i).
            distinct p \<and> set p \<subseteq> S \<union> set ds)"
    for dp S
  proof (induction ds arbitrary: dp S)
    case Nil
    then show ?case by simp
  next
    case (Cons d ds)
    from Cons.prems(2) have dS: "d \<notin> S" by auto
    have v: "length (visitDomain h n d dp) = Suc n \<and>
         (\<forall>i\<le>n. \<forall>p \<in> placementsAt (visitDomain h n d dp ! i). distinct p \<and> set p \<subseteq> insert d S)"
      by (rule visitDomain_invariant[where Q = "\<lambda>i p. distinct p \<and> set p \<subseteq> S"])
         (use Cons.prems dS in auto)
    have "insert d S \<inter> set ds = {}" using Cons.prems(1,2) by auto
    from Cons.IH[OF _ this, of "visitDomain h n d dp"] v Cons.prems(1)
    show ?case by simp
  qed
  from this[OF assms, of "{}" "initialPlacements n sc lc ssz"]
    initialPlacements_cells[of _ n sc lc ssz]
  show ?thesis unfolding fillPlacements_def by fastforce
qed

lemma bestSlicePlacement_in:
  assumes "bestSlicePlacement r = Some p"
  shows "\<exists>k. map_of r k = Some p"
proof -
  have "snd b = None \<or> (\<exists>k. map_of r k = snd b) \<Longrightarrow>
        snd (foldl (bestSliceStep r) b ks) = Some p \<Longrightarrow> \<exists>k. map_of r k = Some p" for b ks
  proof (induction ks arbitrary: b)
    case Nil
    then show ?case by auto
  next
    case (Cons k ks)
    have "snd (bestSliceStep r b k) = None \<or> (\<exists>k'. map_of r k' = snd (bestSliceStep r b k))"
      using Cons.prems(1) by (auto simp: bestSliceStep_def)
    from Cons.IH[OF this] Cons.prems(2) show ?case by simp
  qed
  from this[of "(- (2 ^ 31), None)" "sortedKeys r"] assms show ?thesis
    by (simp add: bestSlicePlacement_def)
qed

lemma bestLeaderPlacement_row:
  "bestLeaderPlacement l = [] \<or> (\<exists>j. map_of l j = Some (bestLeaderPlacement l))"
proof -
  have "snd b = [] \<or> (\<exists>j. map_of l j = Some (snd b)) \<Longrightarrow>
        snd (foldl (bestLeaderStep l) b js) = [] \<or>
        (\<exists>j. map_of l j = Some (snd (foldl (bestLeaderStep l) b js)))" for b js
  proof (induction js arbitrary: b)
    case Nil
    then show ?case by simp
  next
    case (Cons j js)
    have "snd (bestLeaderStep l b j) = [] \<or> (\<exists>j'. map_of l j' = Some (snd (bestLeaderStep l b j)))"
      using Cons.prems by (auto simp: bestLeaderStep_def Let_def rowOf_def split: option.splits)
    from Cons.IH[OF this] show ?case by simp
  qed
  from this[of "(- (2 ^ 31), [])"] show ?thesis
    by (simp add: bestLeaderPlacement_def)
qed

lemma selected_in_layer:
  assumes "bestSlicePlacement (bestLeaderPlacement l) = Some p"
  shows "p \<in> placementsAt l"
proof -
  from bestLeaderPlacement_row[of l] show ?thesis
  proof
    assume "bestLeaderPlacement l = []"
    with assms show ?thesis by (simp add: bestSlicePlacement_def sortedKeys_def)
  next
    assume "\<exists>j. map_of l j = Some (bestLeaderPlacement l)"
    with bestSlicePlacement_in[OF assms] show ?thesis
      unfolding placementsAt_def by blast
  qed
qed

lemma selectOptimalDomainSetToFit_Some:
  assumes "selectOptimalDomainSetToFit es h ds sc lc ssz pbe = Some p"
  obtains n lwl ld where "simulateGreedy h ds sc lc = (True, n, lwl, ld)" and "0 \<le> n"
    and "p \<in> placementsAt (fillPlacements h (if pbe then es h ds else ds) (nat n) sc lc ssz ! nat n)"
proof -
  obtain fit n lwl ld where sim: "simulateGreedy h ds sc lc = (fit, n, lwl, ld)"
    by (metis prod_cases4)
  with assms have fit: "fit" and
    sel: "bestSlicePlacement (bestLeaderPlacement
            (fillPlacements h (if pbe then es h ds else ds) (nat n) sc lc ssz ! nat n)) = Some p"
    by (auto simp: selectOptimalDomainSetToFit_def Let_def split: if_splits)
  from sim fit simulateGreedy_count[of h ds sc lc n lwl ld] have "0 \<le> n" by simp
  with that sim fit selected_in_layer[OF sel] show ?thesis by simp
qed

text \<open>Without the flag the entropy order plays no part.\<close>

lemma selectOptimalDomainSetToFit_without_entropy:
  "selectOptimalDomainSetToFit entropySort h domains sliceCount leaderCount sliceSize False
     = selectOptimalDomainSetToFit (\<lambda>h ds. ds) h domains sliceCount leaderCount sliceSize False"
  by (simp add: selectOptimalDomainSetToFit_def)

section \<open>No domain is selected twice\<close>

text \<open>
  Claim C9. For a list of pairwise distinct candidate domains, a placement returned by
  \<open>selectOptimalDomainSetToFit\<close> contains each candidate at most once, and nothing but
  candidates. When the entropy order is asked for, it is taken to be a permutation of the
  candidates, as the result of any sort is.
\<close>

theorem selectOptimalDomainSetToFit_selects_each_domain_once:
  assumes "distinct domains"
    and "priorizeByEntropy \<Longrightarrow> mset (entropySort h domains) = mset domains"
    and "selectOptimalDomainSetToFit entropySort h domains sliceCount leaderCount sliceSize
           priorizeByEntropy = Some placement"
  shows "distinct placement \<and> set placement \<subseteq> set domains"
proof -
  let ?ds = "if priorizeByEntropy then entropySort h domains else domains"
  have m: "mset ?ds = mset domains" using assms(2) by simp
  then have d: "distinct ?ds" and s: "set ?ds = set domains"
    using assms(1) by (metis mset_eq_imp_distinct_iff, metis mset_eq_setD)
  from selectOptimalDomainSetToFit_Some[OF assms(3)] obtain n where
    "placement \<in> placementsAt (fillPlacements h ?ds (nat n) sliceCount leaderCount sliceSize ! nat n)"
    by blast
  with fillPlacements_distinct[OF d, of "nat n" h sliceCount leaderCount sliceSize] s
  show ?thesis by blast
qed

theorem selectOptimalDomainSetToFit_selects_each_domain_once_witness:
  "distinct [1, 2, 3, 4 :: addr]
   \<and> mset (reverseOrder fourChildren [1, 2, 3, 4]) = mset [1, 2, 3, 4]
   \<and> selectOptimalDomainSetToFit reverseOrder fourChildren [1, 2, 3, 4] 10 0 1 True
       = Some [4, 3, 2]
   \<and> distinct [4, 3, 2 :: addr] \<and> set [4, 3, 2] \<subseteq> set [1, 2, 3, 4 :: addr]"
proof -
  have a: "distinct [1, 2, 3, 4 :: addr]" by simp
  have b: "mset (reverseOrder fourChildren [1, 2, 3, 4]) = mset [1, 2, 3, 4]"
    by (simp add: reverseOrder_def)
  have c: "selectOptimalDomainSetToFit reverseOrder fourChildren [1, 2, 3, 4] 10 0 1 True
       = Some [4, 3, 2]"
    by code_simp
  from selectOptimalDomainSetToFit_selects_each_domain_once[OF a b c] a b c
  show ?thesis by blast
qed

section \<open>Facts about the balancer\<close>







lemma sortedDomainsWithLeader_facts [simp]:
  "length (sortedDomainsWithLeader h ds asc) = length ds"
  "set (sortedDomainsWithLeader h ds asc) = set ds"
  "distinct (sortedDomainsWithLeader h ds asc) = distinct ds"
  by (simp_all add: sortedDomainsWithLeader_def)

text \<open>The three ways out of the balancer.\<close>

lemma placeSlicesOnDomainsBalanced_cases:
  obtains
    (unfit) "selectOptimalDomainSetToFit (\<lambda>h ds. ds) h ds sc lc ssz False = None"
      "placeSlicesOnDomainsBalanced h ds sc lc ssz thr =
         (None, ''TAS Balanced Placement Error: Cannot find optimal domain set to fit'', h)"
  | (short) p where "selectOptimalDomainSetToFit (\<lambda>h ds. ds) h ds sc lc ssz False = Some p"
      "sc < int (length p) * thr"
      "placeSlicesOnDomainsBalanced h ds sc lc ssz thr =
         (None, ''TAS Balanced Placement Error: Not enough slices to meet the threshold'', h)"
  | (residue) p h' e' l' where
      "selectOptimalDomainSetToFit (\<lambda>h ds. ds) h ds sc lc ssz False = Some p"
      "0 \<le> sc - int (length p) * thr"
      "foldl (balanceStep thr ssz) (h, sc - int (length p) * thr, lc)
         (sortedDomainsWithLeader h p False) = (h', e', l')"
      "0 < e' \<or> 0 < l'"
      "placeSlicesOnDomainsBalanced h ds sc lc ssz thr =
         (None, ''TAS Balanced Placement Error: Not all slices or leaders could be placed'', h')"
  | (placed) p h' e' l' where
      "selectOptimalDomainSetToFit (\<lambda>h ds. ds) h ds sc lc ssz False = Some p"
      "0 \<le> sc - int (length p) * thr"
      "foldl (balanceStep thr ssz) (h, sc - int (length p) * thr, lc)
         (sortedDomainsWithLeader h p False) = (h', e', l')"
      "e' \<le> 0" "l' \<le> 0"
      "placeSlicesOnDomainsBalanced h ds sc lc ssz thr =
         (Some (sortedDomainsWithLeader h p False), [], h')"
proof (cases "selectOptimalDomainSetToFit (\<lambda>h ds. ds) h ds sc lc ssz False")
  case None
  then show ?thesis using unfit by (simp add: placeSlicesOnDomainsBalanced_def)
next
  case (Some p)
  show ?thesis
  proof (cases "sc < int (length p) * thr")
    case True
    with Some show ?thesis using short by (simp add: placeSlicesOnDomainsBalanced_def)
  next
    case False
    obtain h' e' l' where f: "foldl (balanceStep thr ssz) (h, sc - int (length p) * thr, lc)
         (sortedDomainsWithLeader h p False) = (h', e', l')"
      by (metis prod_cases3)
    show ?thesis
    proof (cases "0 < e' \<or> 0 < l'")
      case True
      with Some False f show ?thesis using residue[of p h' e' l']
        by (simp add: placeSlicesOnDomainsBalanced_def Let_def)
    next
      case False
      with Some \<open>\<not> sc < int (length p) * thr\<close> f show ?thesis using placed[of p h' e' l']
        by (simp add: placeSlicesOnDomainsBalanced_def Let_def)
    qed
  qed
qed

section \<open>The leader phase of the simulator\<close>

lemma leaderLoop_prefix:
  "\<exists>taken rest.
     xs = taken @ rest
   \<and> (\<forall>a \<in> set taken. 0 < leaderState (h a))
   \<and> (\<forall>n < length taken. 0 < rl - sum_list (map (\<lambda>a. leaderState (h a)) (take n taken)))
   \<and> leaderLoop h xs c l rl rs =
       (c + int (length taken), (if taken = [] then l else Some (last taken)),
        rl - sum_list (map (\<lambda>a. leaderState (h a)) taken),
        rs - sum_list (map (\<lambda>a. sliceStateWithLeader (h a)) taken), rest)
   \<and> (rl - sum_list (map (\<lambda>a. leaderState (h a)) taken) \<le> 0 \<or> rest = []
        \<or> leaderState (h (hd rest)) \<le> 0)"
proof (induction xs arbitrary: c l rl rs)
  case Nil
  show ?case by (rule exI[of _ "[]"], rule exI[of _ "[]"]) simp
next
  case (Cons a xs)
  show ?case
  proof (cases "0 < rl \<and> 0 < leaderState (h a)")
    case True
    from Cons.IH[where c = "c + 1" and l = "Some a" and rl = "rl - leaderState (h a)"
                   and rs = "rs - sliceStateWithLeader (h a)"]
    obtain taken rest where t:
      "xs = taken @ rest"
      "\<forall>a \<in> set taken. 0 < leaderState (h a)"
      "\<forall>n < length taken. 0 < rl - leaderState (h a) - sum_list (map (\<lambda>a. leaderState (h a)) (take n taken))"
      "leaderLoop h xs (c + 1) (Some a) (rl - leaderState (h a)) (rs - sliceStateWithLeader (h a)) =
         (c + 1 + int (length taken), (if taken = [] then Some a else Some (last taken)),
          rl - leaderState (h a) - sum_list (map (\<lambda>a. leaderState (h a)) taken),
          rs - sliceStateWithLeader (h a) - sum_list (map (\<lambda>a. sliceStateWithLeader (h a)) taken), rest)"
      "rl - leaderState (h a) - sum_list (map (\<lambda>a. leaderState (h a)) taken) \<le> 0 \<or> rest = []
        \<or> leaderState (h (hd rest)) \<le> 0"
      by blast
    have pre: "0 < rl - sum_list (map (\<lambda>a. leaderState (h a)) (take n (a # taken)))"
      if "n < length (a # taken)" for n
    proof (cases n)
      case 0
      with True show ?thesis by simp
    next
      case (Suc m)
      with that t(3) show ?thesis by (simp add: algebra_simps)
    qed
    show ?thesis
      apply (rule exI[of _ "a # taken"], rule exI[of _ rest])
      using True t(1,2,4,5) pre by (simp add: algebra_simps)
  next
    case False
    show ?thesis
      apply (rule exI[of _ "[]"], rule exI[of _ "a # xs"])
      using False by auto
  qed
qed

text \<open>
  If the order lists every domain that can host a leader before every domain that cannot,
  a phase that ends with leaders still to place has left no domain that could host one.
\<close>

lemma leaderLoop_eligible_first:
  assumes order: "\<forall>a \<in> set (take k xs). 0 < leaderState (h a)"
                 "\<forall>a \<in> set (drop k xs). leaderState (h a) \<le> 0"
    and run: "leaderLoop h xs c l rl rs = (c', l', rl', rs', rest)"
  shows "rl' \<le> 0 \<or> (\<forall>a \<in> set rest. leaderState (h a) \<le> 0)"
proof -
  from leaderLoop_prefix[where xs = xs and h = h and c = c and l = l and rl = rl and rs = rs] run
  obtain taken where t: "xs = taken @ rest"
    and stop: "rl' \<le> 0 \<or> rest = [] \<or> leaderState (h (hd rest)) \<le> 0"
    by auto
  show ?thesis
  proof (cases "rl' \<le> 0 \<or> rest = []")
    case True
    then show ?thesis by auto
  next
    case False
    with stop have hd: "leaderState (h (hd rest)) \<le> 0" and ne: "rest \<noteq> []" by auto
    have "k \<le> length taken"
    proof (rule ccontr)
      assume "\<not> k \<le> length taken"
      then have "length taken < k" by simp
      with t ne have "hd rest \<in> set (take k xs)"
        by (cases rest) (auto simp: take_Cons')
      with order(1) hd show False by fastforce
    qed
    with t have "set rest \<subseteq> set (drop k xs)" by auto
    with order(2) show ?thesis by blast
  qed
qed




section \<open>The choice of the winning cell\<close>

text \<open>
  Only the index 0 passes the test \<open>leadersLeft \<le> 0\<close>, so whatever the keys of the layer
  are, the first loop settles on the row of key 0, which may not exist.
\<close>

lemma bestLeaderStep_positive_index:
  "0 < j \<Longrightarrow> bestLeaderStep l best j = best"
  by (simp add: bestLeaderStep_def Let_def)

lemma bestLeaderPlacement_is_row_zero:
  "bestLeaderPlacement l = (if l = [] then [] else rowOf l 0)"
proof (cases l)
  case Nil
  then show ?thesis by (simp add: bestLeaderPlacement_def sortedKeys_def)
next
  case (Cons x xs)
  then have n: "length (sortedKeys l) = Suc (length xs)" by (simp add: sortedKeys_def)
  have later: "foldl (bestLeaderStep l) best js = best" if "\<forall>j \<in> set js. 0 < j" for best js
    using that by (induction js arbitrary: best) (simp_all add: bestLeaderStep_positive_index)
  have "[0..<Suc (length xs)] = 0 # [1..<Suc (length xs)]"
    by (simp add: upt_rec)
  then have "foldl (bestLeaderStep l) (- (2 ^ 31), []) [0..<length (sortedKeys l)]
        = foldl (bestLeaderStep l) (bestLeaderStep l (- (2 ^ 31), []) 0) [1..<Suc (length xs)]"
    unfolding n by (simp only: foldl_Cons)
  also have "\<dots> = bestLeaderStep l (- (2 ^ 31), []) 0"
    by (rule later) auto
  also have "\<dots> = (0, rowOf l 0)"
    by (simp add: bestLeaderStep_def)
  finally show ?thesis using Cons by (simp add: bestLeaderPlacement_def)
qed


section \<open>What the balancer guarantees\<close>


text \<open>
  Claim C3, as amended. When \<open>placeSlicesOnDomainsBalanced\<close> fails with a diagnostic other
  than "Not all slices or leaders could be placed" (that is, when no domain set fits or
  the slices do not reach the threshold), the store is the one before the call: no field
  of any domain has changed.
\<close>

theorem placeSlicesOnDomainsBalanced_early_failures_are_pure:
  assumes "fst (placeSlicesOnDomainsBalanced h domains sliceCount leaderCount sliceSize threshold) = None"
    and "fst (snd (placeSlicesOnDomainsBalanced h domains sliceCount leaderCount sliceSize threshold))
           \<noteq> ''TAS Balanced Placement Error: Not all slices or leaders could be placed''"
  shows "snd (snd (placeSlicesOnDomainsBalanced h domains sliceCount leaderCount sliceSize threshold)) = h"
  using assms
  by (cases rule: placeSlicesOnDomainsBalanced_cases
        [of h domains sliceCount leaderCount sliceSize threshold]) simp_all

theorem placeSlicesOnDomainsBalanced_early_failures_are_pure_witness:
  "fst (placeSlicesOnDomainsBalanced twoSmall [0, 1] 5 0 1 2) = None
   \<and> fst (snd (placeSlicesOnDomainsBalanced twoSmall [0, 1] 5 0 1 2))
       = ''TAS Balanced Placement Error: Cannot find optimal domain set to fit''
   \<and> snd (snd (placeSlicesOnDomainsBalanced twoSmall [0, 1] 5 0 1 2)) = twoSmall"
proof -
  have a: "fst (placeSlicesOnDomainsBalanced twoSmall [0, 1] 5 0 1 2) = None"
    by code_simp
  have b: "fst (snd (placeSlicesOnDomainsBalanced twoSmall [0, 1] 5 0 1 2))
       = ''TAS Balanced Placement Error: Cannot find optimal domain set to fit''"
    by code_simp
  then have c: "fst (snd (placeSlicesOnDomainsBalanced twoSmall [0, 1] 5 0 1 2))
       \<noteq> ''TAS Balanced Placement Error: Not all slices or leaders could be placed''"
    by simp
  from placeSlicesOnDomainsBalanced_early_failures_are_pure[OF a c] a b
  show ?thesis by blast
qed

text \<open>
  The third failure is found after the loop has written the selected domains: here the
  call fails and the domain at address 0 has gone from ten slices to five.
\<close>

theorem placeSlicesOnDomainsBalanced_mutates_on_failure:
  "fst (placeSlicesOnDomainsBalanced leaderMismatch [0, 1, 2] 14 1 1 5) = None
   \<and> fst (snd (placeSlicesOnDomainsBalanced leaderMismatch [0, 1, 2] 14 1 1 5))
       = ''TAS Balanced Placement Error: Not all slices or leaders could be placed''
   \<and> sliceState (leaderMismatch 0) = 10
   \<and> sliceState (snd (snd (placeSlicesOnDomainsBalanced leaderMismatch [0, 1, 2] 14 1 1 5)) 0) = 5"
  by code_simp




text \<open>
  The candidates have to be different objects: with the domain at address 0 listed twice
  and two leaders requested, every capacity is at least the threshold 2 and the call
  succeeds, yet the second visit reads the one slice beside a leader that the first visit
  left and leaves the domain at one slice.
\<close>

lemma threshold_floor_needs_distinct:
  "fst (placeSlicesOnDomainsBalanced sharedLeader [0, 0, 1] 6 2 1 2) = Some [0, 0, 1]
   \<and> sliceState (snd (snd (placeSlicesOnDomainsBalanced sharedLeader [0, 0, 1] 6 2 1 2)) 0) = 1"
  by code_simp




text \<open>
  Claim C7. When \<open>placeSlicesOnDomainsBalanced\<close> succeeds, the number of returned domains
  is the optimal domain count that \<open>simulateGreedy\<close> reports for the same candidates and
  counts.
\<close>

theorem placeSlicesOnDomainsBalanced_uses_optimal_count:
  assumes "fst (placeSlicesOnDomainsBalanced h domains sliceCount leaderCount sliceSize threshold)
             = Some result"
  shows "int (length result) = fst (snd (simulateGreedy h domains sliceCount leaderCount))"
proof (cases rule: placeSlicesOnDomainsBalanced_cases
        [of h domains sliceCount leaderCount sliceSize threshold])
  case (placed p h' e' l')
  from placed(6) assms have res: "result = sortedDomainsWithLeader h p False" by simp
  from selectOptimalDomainSetToFit_Some[OF placed(1)] obtain n lwl ld where
    sim: "simulateGreedy h domains sliceCount leaderCount = (True, n, lwl, ld)" and n: "0 \<le> n"
    and p: "p \<in> placementsAt (fillPlacements h domains (nat n) sliceCount leaderCount sliceSize ! nat n)"
    by (metis (full_types))
  from fillPlacements_length[of h domains "nat n" sliceCount leaderCount sliceSize] p
  have "length p = nat n" by blast
  with res sim n show ?thesis by simp
qed (use assms in simp_all)

theorem placeSlicesOnDomainsBalanced_uses_optimal_count_witness:
  "fst (placeSlicesOnDomainsBalanced fourChildren [1, 2, 3, 4] 10 0 1 3) = Some [1, 2, 3]
   \<and> int (length [1, 2, 3 :: addr]) = fst (snd (simulateGreedy fourChildren [1, 2, 3, 4] 10 0))
   \<and> simulateGreedy fourChildren [1, 2, 3, 4] 10 0 = (True, 3, None, Some 3)"
proof -
  have c: "fst (placeSlicesOnDomainsBalanced fourChildren [1, 2, 3, 4] 10 0 1 3) = Some [1, 2, 3]"
    by code_simp
  have s: "simulateGreedy fourChildren [1, 2, 3, 4] 10 0 = (True, 3, None, Some 3)"
    by code_simp
  from placeSlicesOnDomainsBalanced_uses_optimal_count[OF c] c s
  show ?thesis by blast
qed




text \<open>
  The two conditions of the amended invariant are needed: a domain listed twice is read
  the second time as the first visit left it, and a negative threshold is handed out as a
  slice count. Either way a domain ends with a negative \<open>sliceState\<close>.
\<close>

lemma capacity_order_needs_distinct:
  "sliceState (snd (snd (placeSlicesOnDomainsBalanced oneLeader [0, 0] 0 2 1 0)) 0) = - 1"
  by code_simp

lemma capacity_order_needs_nonnegative_threshold:
  "fst (placeSlicesOnDomainsBalanced emptyAndOne [0, 1] 0 2 1 (- 1)) = Some [1, 0]
   \<and> sliceState (snd (snd (placeSlicesOnDomainsBalanced emptyAndOne [0, 1] 0 2 1 (- 1))) 0) = - 1"
  by code_simp

end
